theory Spec2Isabelle
  imports Main "HOL-Library.Word"
begin

section \<open>The default reporter of cmp (cmp/report.go)\<close>

text \<open>
  The reporter observes a tree traversal through three calls, PushStep, Report and
  PopStep, and renders the unequal leaves into a list of text blocks. Every method has
  a pointer receiver; the model passes the reporter in and returns the updated one.
  A run-time panic of Go is a value of type \<open>panic\<close>, returned on the left of a sum.

  Go's \<open>int\<close> is modelled by HOL's \<open>int\<close>: the three counters grow by one or by
  the size of a block that is held in memory, so they stay far inside the range of a
  machine word on every run a machine can perform (lemma \<open>counters_bounded\<close> gives the
  bound in terms of the calls made).
\<close>

subsection \<open>Flags\<close>

type_synonym reportFlags = "64 word"

text \<open>The constant block \<open>(1 << iota) / 2\<close>; iota counts the lines of the block from 0,
  and line 0 is the blank identifier.\<close>

definition reportFlags_iota :: "nat \<Rightarrow> reportFlags" where
  "reportFlags_iota i = push_bit i 1 div 2"

definition reportEqual :: reportFlags where
  "reportEqual = reportFlags_iota 1"

definition reportUnequal :: reportFlags where
  "reportUnequal = reportFlags_iota 2"

definition reportIgnore :: reportFlags where
  "reportIgnore = reportFlags_iota 3"

subsection \<open>Data\<close>

datatype panic = IndexOutOfRange | SliceBoundsOutOfRange

text \<open>
  \<open>'step\<close> stands for PathStep and \<open>'v\<close> for reflect.Value; both are opaque to the
  reporter. A Path is a slice of steps, and the element type of curVals is a
  two-element array, modelled as a pair. The embedded Option of the struct is never
  read or written by the methods and is left out.
\<close>

record ('step, 'v) defaultReporter =
  curPath :: "'step list"
  curVals :: "('v \<times> 'v) list"
  diffs :: "string list"
  ndiffs :: int
  nbytes :: int
  nlines :: int

text \<open>The zero value of the struct, which is what \<open>new(defaultReporter)\<close> gives.\<close>

definition new_defaultReporter :: "('step, 'v) defaultReporter" where
  "new_defaultReporter =
     \<lparr>curPath = [], curVals = [], diffs = [], ndiffs = 0, nbytes = 0, nlines = 0\<rparr>"

text \<open>
  The configuration passed to value.Format. Only the two fields that report.go sets
  are modelled; a field that a composite literal does not mention is false.
\<close>

record FormatConfig =
  UseStringer :: bool
  PrintPrimitiveType :: bool

definition friendly :: FormatConfig where
  "friendly = \<lparr>UseStringer = True, PrintPrimitiveType = False\<rparr>"

definition exact :: FormatConfig where
  "exact = \<lparr>UseStringer = False, PrintPrimitiveType = True\<rparr>"

subsection \<open>Path\<close>

text \<open>
  Modelled from the spec: the methods push and pop of Path are called by PushStep and
  PopStep but are declared outside report.go. The spec says that a push appends the
  step to the path, that a pop removes the last step, and that a pop at depth 0 is a
  fatal failure.
\<close>

definition Path_push :: "'step list \<Rightarrow> 'step \<Rightarrow> 'step list" where
  "Path_push pa ps = pa @ [ps]"

definition Path_pop :: "'step list \<Rightarrow> panic + 'step list" where
  "Path_pop pa = (if pa = [] then Inl SliceBoundsOutOfRange else Inr (butlast pa))"

subsection \<open>Text\<close>

definition newline :: char where
  "newline = CHR 0x0A"

definition tab :: char where
  "tab = CHR 0x09"

text \<open>\<open>strings.Count(s, "\n")\<close>: the separator is one byte, so the count is the number
  of bytes equal to it.\<close>

definition strings_Count_newline :: "string \<Rightarrow> nat" where
  "strings_Count_newline s = length (filter (\<lambda>c. c = newline) s)"

text \<open>\<open>strings.Join(a, "")\<close>.\<close>

definition strings_Join_empty :: "string list \<Rightarrow> string" where
  "strings_Join_empty a = concat a"

text \<open>The verb \<open>%d\<close> of fmt on an int: decimal digits, with a minus sign when negative.\<close>

fun decimal_digits :: "nat \<Rightarrow> string" where
  "decimal_digits n =
     (if n < 10 then [char_of (48 + n)]
      else decimal_digits (n div 10) @ [char_of (48 + n mod 10)])"

declare decimal_digits.simps [simp del]

definition Sprintf_d :: "int \<Rightarrow> string" where
  "Sprintf_d i = (if i < 0 then CHR ''-'' # decimal_digits (nat (- i)) else decimal_digits (nat i))"

text \<open>\<open>fmt.Sprintf("%#v:\n\t-: %s\n\t+: %s\n", p, sx, sy)\<close>, where the first argument is
  already the text that \<open>%#v\<close> gives for the path.\<close>

definition Sprintf_diff :: "string \<Rightarrow> string \<Rightarrow> string \<Rightarrow> string" where
  "Sprintf_diff p sx sy =
     p @ '':'' @ [newline, tab] @ ''-: '' @ sx @ [newline, tab] @ ''+: '' @ sy @ [newline]"

text \<open>\<open>fmt.Sprintf("%s... %d more differences ...", s, n)\<close>.\<close>

definition Sprintf_more :: "string \<Rightarrow> int \<Rightarrow> string" where
  "Sprintf_more s n = s @ ''... '' @ Sprintf_d n @ '' more differences ...''"

subsection \<open>The methods\<close>

text \<open>
  value.Format and the text of a path under \<open>%#v\<close> are declared outside report.go;
  the methods that need them take them as the parameters \<open>Format\<close> and \<open>GoString\<close>.
\<close>

definition maxBytes :: int where
  "maxBytes = 4096"

definition maxLines :: int where
  "maxLines = 256"

definition PushStep ::
  "'step \<Rightarrow> 'v \<Rightarrow> 'v \<Rightarrow> ('step, 'v) defaultReporter \<Rightarrow> ('step, 'v) defaultReporter" where
  "PushStep ps x y r =
     r\<lparr>curPath := Path_push (curPath r) ps, curVals := curVals r @ [(x, y)]\<rparr>"

definition report ::
  "('v \<Rightarrow> FormatConfig \<Rightarrow> string) \<Rightarrow> ('step list \<Rightarrow> string) \<Rightarrow>
   'v \<Rightarrow> 'v \<Rightarrow> 'step list \<Rightarrow> ('step, 'v) defaultReporter \<Rightarrow> ('step, 'v) defaultReporter" where
  "report Format GoString x y p r0 =
     (let r = r0\<lparr>ndiffs := ndiffs r0 + 1\<rparr> in
      if nbytes r < maxBytes \<and> nlines r < maxLines then
        let sx = Format x \<lparr>UseStringer = True, PrintPrimitiveType = False\<rparr>;
            sy = Format y \<lparr>UseStringer = True, PrintPrimitiveType = False\<rparr>;
            same = (sx = sy);
            sx = (if same then Format x \<lparr>UseStringer = False, PrintPrimitiveType = True\<rparr> else sx);
            sy = (if same then Format y \<lparr>UseStringer = False, PrintPrimitiveType = True\<rparr> else sy);
            s = Sprintf_diff (GoString p) sx sy
        in r\<lparr>diffs := diffs r @ [s],
             nbytes := nbytes r + int (length s),
             nlines := nlines r + int (strings_Count_newline s)\<rparr>
      else r)"

definition Report ::
  "('v \<Rightarrow> FormatConfig \<Rightarrow> string) \<Rightarrow> ('step list \<Rightarrow> string) \<Rightarrow>
   reportFlags \<Rightarrow> ('step, 'v) defaultReporter \<Rightarrow> panic + ('step, 'v) defaultReporter" where
  "Report Format GoString f r =
     (if f = reportUnequal then
        (if curVals r = [] then Inl IndexOutOfRange
         else let vs = last (curVals r)
              in Inr (report Format GoString (fst vs) (snd vs) (curPath r) r))
      else Inr r)"

definition PopStep :: "('step, 'v) defaultReporter \<Rightarrow> panic + ('step, 'v) defaultReporter" where
  "PopStep r =
     (case Path_pop (curPath r) of
        Inl e \<Rightarrow> Inl e
      | Inr pa \<Rightarrow>
          (if curVals r = [] then Inl SliceBoundsOutOfRange
           else Inr (r\<lparr>curPath := pa, curVals := butlast (curVals r)\<rparr>)))"

text \<open>String returns its text together with the reporter, which it only reads.\<close>

definition String :: "('step, 'v) defaultReporter \<Rightarrow> string \<times> ('step, 'v) defaultReporter" where
  "String r =
     (let s = strings_Join_empty (diffs r) in
      if ndiffs r = int (length (diffs r)) then (s, r)
      else (Sprintf_more s (ndiffs r - int (length (diffs r))), r))"

subsection \<open>Call sequences\<close>

text \<open>The calls that the traversal engine makes, and a run of a list of them; the run
  stops at the first panic.\<close>

datatype ('step, 'v) call = Push 'step 'v 'v | Rep reportFlags | Pop

fun do_call ::
  "('v \<Rightarrow> FormatConfig \<Rightarrow> string) \<Rightarrow> ('step list \<Rightarrow> string) \<Rightarrow>
   ('step, 'v) call \<Rightarrow> ('step, 'v) defaultReporter \<Rightarrow> panic + ('step, 'v) defaultReporter" where
  "do_call Format GoString (Push ps x y) r = Inr (PushStep ps x y r)"
| "do_call Format GoString (Rep f) r = Report Format GoString f r"
| "do_call Format GoString Pop r = PopStep r"

fun run ::
  "('v \<Rightarrow> FormatConfig \<Rightarrow> string) \<Rightarrow> ('step list \<Rightarrow> string) \<Rightarrow>
   ('step, 'v) call list \<Rightarrow> ('step, 'v) defaultReporter \<Rightarrow> panic + ('step, 'v) defaultReporter" where
  "run Format GoString [] r = Inr r"
| "run Format GoString (c # cs) r =
     (case do_call Format GoString c r of
        Inl e \<Rightarrow> Inl e
      | Inr r' \<Rightarrow> run Format GoString cs r')"

subsection \<open>The traversal protocol\<close>

text \<open>The depth of the traversal after a list of calls: pushes minus pops.\<close>

fun depth_change :: "('step, 'v) call \<Rightarrow> int" where
  "depth_change (Push ps x y) = 1"
| "depth_change (Rep f) = 0"
| "depth_change Pop = - 1"

definition depth :: "('step, 'v) call list \<Rightarrow> int" where
  "depth cs = sum_list (map depth_change cs)"

text \<open>A list of calls is well nested from depth \<open>d\<close> when no pop is made at depth 0 and
  no unequal leaf is reported at depth 0.\<close>

fun well_nested :: "nat \<Rightarrow> ('step, 'v) call list \<Rightarrow> bool" where
  "well_nested d [] = True"
| "well_nested d (Push ps x y # cs) = well_nested (Suc d) cs"
| "well_nested d (Rep f # cs) =
     (if f = reportUnequal then 0 < d \<and> well_nested d cs else well_nested d cs)"
| "well_nested d (Pop # cs) = (0 < d \<and> well_nested (d - 1) cs)"

text \<open>The pushes that are still open after a list of calls, oldest first, each with the
  two values that came with it.\<close>

fun open_frames ::
  "('step \<times> 'v \<times> 'v) list \<Rightarrow> ('step, 'v) call list \<Rightarrow> ('step \<times> 'v \<times> 'v) list" where
  "open_frames st [] = st"
| "open_frames st (Push ps x y # cs) = open_frames (st @ [(ps, x, y)]) cs"
| "open_frames st (Rep f # cs) = open_frames st cs"
| "open_frames st (Pop # cs) = open_frames (butlast st) cs"

definition unequal_count :: "('step, 'v) call list \<Rightarrow> nat" where
  "unequal_count cs = length (filter (\<lambda>c. c = Rep reportUnequal) cs)"

text \<open>
  The rendering of one unequal leaf in the words of the spec: render both values in the
  friendly mode; if the two texts are identical, render both again in the exact mode;
  compose the block from the path, a before line and an after line.
\<close>

definition spec_entry ::
  "('v \<Rightarrow> FormatConfig \<Rightarrow> string) \<Rightarrow> ('step list \<Rightarrow> string) \<Rightarrow>
   'step list \<Rightarrow> 'v \<Rightarrow> 'v \<Rightarrow> string" where
  "spec_entry Format GoString p x y =
     (if Format x friendly = Format y friendly
      then Sprintf_diff (GoString p) (Format x exact) (Format y exact)
      else Sprintf_diff (GoString p) (Format x friendly) (Format y friendly))"

text \<open>The blocks of all unequal leaves of a list of calls, in traversal order, with no
  truncation.\<close>

fun spec_entries ::
  "('v \<Rightarrow> FormatConfig \<Rightarrow> string) \<Rightarrow> ('step list \<Rightarrow> string) \<Rightarrow>
   ('step \<times> 'v \<times> 'v) list \<Rightarrow> ('step, 'v) call list \<Rightarrow> string list" where
  "spec_entries Format GoString st [] = []"
| "spec_entries Format GoString st (Push ps x y # cs) =
     spec_entries Format GoString (st @ [(ps, x, y)]) cs"
| "spec_entries Format GoString st (Rep f # cs) =
     (if f = reportUnequal \<and> st \<noteq> []
      then [spec_entry Format GoString (map fst st) (fst (snd (last st))) (snd (snd (last st)))]
      else []) @ spec_entries Format GoString st cs"
| "spec_entries Format GoString st (Pop # cs) = spec_entries Format GoString (butlast st) cs"

text \<open>
  The accounting of the stored text: the two counters are the bytes and the newlines of
  the joined blocks, and the stored text without its last block is under both caps.
\<close>

definition accounted :: "('step, 'v) defaultReporter \<Rightarrow> bool" where
  "accounted r \<longleftrightarrow>
     nbytes r = int (length (strings_Join_empty (diffs r))) \<and>
     nlines r = int (strings_Count_newline (strings_Join_empty (diffs r))) \<and>
     int (length (strings_Join_empty (butlast (diffs r)))) < maxBytes \<and>
     int (strings_Count_newline (strings_Join_empty (butlast (diffs r)))) < maxLines"

subsection \<open>A concrete formatter and concrete traversals\<close>

text \<open>
  A value is a type name with a text. The friendly mode prints the text alone, the exact
  mode prints the type name around it; a path prints as its steps one after the other.
\<close>

definition ex_Format :: "string \<times> string \<Rightarrow> FormatConfig \<Rightarrow> string" where
  "ex_Format v cfg =
     (if PrintPrimitiveType cfg then fst v @ ''('' @ snd v @ '')'' else snd v)"

definition ex_GoString :: "string list \<Rightarrow> string" where
  "ex_GoString p = concat p"

text \<open>Two records that differ in the field Age.\<close>

definition ex_age :: "(string, string \<times> string) call list" where
  "ex_age =
     [Push ''{T}'' (''T'', ''{30}'') (''T'', ''{31}''),
      Push ''.Age'' (''int'', ''30'') (''int'', ''31''),
      Rep reportUnequal, Pop, Pop]"

text \<open>Two values of different types that print the same in the friendly mode.\<close>

definition ex_masked :: "(string, string \<times> string) call list" where
  "ex_masked =
     [Push ''{T}'' (''T'', ''{1}'') (''T'', ''{1}''),
      Push ''.N'' (''int'', ''1'') (''uint'', ''1''),
      Rep reportUnequal, Pop, Pop]"

text \<open>A traversal with only equal and ignored leaves.\<close>

definition ex_equal :: "(string, string \<times> string) call list" where
  "ex_equal =
     [Push ''{T}'' (''T'', ''{1 2}'') (''T'', ''{1 2}''),
      Push ''.A'' (''int'', ''1'') (''int'', ''1''), Rep reportEqual, Pop,
      Push ''.B'' (''int'', ''2'') (''int'', ''2''), Rep reportIgnore, Pop,
      Pop]"

text \<open>One unequal leaf with a short rendering.\<close>

definition ex_leaf :: "(string, string \<times> string) call list" where
  "ex_leaf = [Push ''.A'' (''int'', ''1'') (''int'', ''2''), Rep reportUnequal, Pop]"

text \<open>One unequal leaf whose left value is a text of 5000 bytes.\<close>

definition ex_big_leaf :: "(string, string \<times> string) call list" where
  "ex_big_leaf =
     [Push ''.S'' (''string'', replicate 5000 CHR ''x'') (''string'', ''y''),
      Rep reportUnequal, Pop]"

text \<open>Under a root: 85 short unequal leaves, then the big one.\<close>

definition ex_overshoot :: "(string, string \<times> string) call list" where
  "ex_overshoot =
     Push ''{T}'' (''T'', ''a'') (''T'', ''b'') # concat (replicate 85 ex_leaf) @ ex_big_leaf @ [Pop]"

text \<open>Under a root: 300 short unequal leaves.\<close>

definition ex_many :: "(string, string \<times> string) call list" where
  "ex_many =
     Push ''{T}'' (''T'', ''a'') (''T'', ''b'') # concat (replicate 300 ex_leaf) @ [Pop]"

section \<open>Properties\<close>

subsection \<open>Values of the flags\<close>

lemma reportEqual_value: "reportEqual = 1"
  by (simp add: reportEqual_def reportFlags_iota_def)

lemma reportUnequal_value: "reportUnequal = 2"
  by (simp add: reportUnequal_def reportFlags_iota_def)

lemma reportIgnore_value: "reportIgnore = 4"
  by (simp add: reportIgnore_def reportFlags_iota_def)

subsection \<open>Text\<close>

lemma Count_newline_append:
  "strings_Count_newline (s @ t) = strings_Count_newline s + strings_Count_newline t"
  by (simp add: strings_Count_newline_def)

lemma Count_newline_Nil: "strings_Count_newline [] = 0"
  by (simp add: strings_Count_newline_def)

subsection \<open>One call\<close>

lemma report_stacks:
  "curPath (report F G x y p r) = curPath r"
  "curVals (report F G x y p r) = curVals r"
  by (simp_all add: report_def Let_def)

lemma report_ndiffs: "ndiffs (report F G x y p r) = ndiffs r + 1"
  by (simp add: report_def Let_def)

lemma report_diffs:
  "diffs (report F G x y p r) =
     (if nbytes r < maxBytes \<and> nlines r < maxLines
      then diffs r @ [spec_entry F G p x y] else diffs r)"
  by (simp add: report_def Let_def spec_entry_def friendly_def exact_def)

lemma report_nbytes:
  "nbytes (report F G x y p r) =
     (if nbytes r < maxBytes \<and> nlines r < maxLines
      then nbytes r + int (length (spec_entry F G p x y)) else nbytes r)"
  by (simp add: report_def Let_def spec_entry_def friendly_def exact_def)

lemma report_nlines:
  "nlines (report F G x y p r) =
     (if nbytes r < maxBytes \<and> nlines r < maxLines
      then nlines r + int (strings_Count_newline (spec_entry F G p x y)) else nlines r)"
  by (simp add: report_def Let_def spec_entry_def friendly_def exact_def)

lemmas report_fields =
  report_stacks report_ndiffs report_diffs report_nbytes report_nlines

lemma PopStep_Inr:
  "PopStep r = Inr r' \<longleftrightarrow>
     curPath r \<noteq> [] \<and> curVals r \<noteq> [] \<and>
     r' = r\<lparr>curPath := butlast (curPath r), curVals := butlast (curVals r)\<rparr>"
  by (auto simp: PopStep_def Path_pop_def)

lemma PopStep_Inl:
  "PopStep r = Inl e \<longleftrightarrow> (curPath r = [] \<or> curVals r = []) \<and> e = SliceBoundsOutOfRange"
  by (auto simp: PopStep_def Path_pop_def)

lemma Report_Inr:
  "Report F G f r = Inr r' \<longleftrightarrow>
     (if f = reportUnequal
      then curVals r \<noteq> [] \<and>
           r' = report F G (fst (last (curVals r))) (snd (last (curVals r))) (curPath r) r
      else r' = r)"
  by (auto simp: Report_def Let_def)

lemma Report_Inl:
  "Report F G f r = Inl e \<longleftrightarrow> f = reportUnequal \<and> curVals r = [] \<and> e = IndexOutOfRange"
  by (auto simp: Report_def Let_def)

lemma PushStep_fields:
  "curPath (PushStep ps x y r) = curPath r @ [ps]"
  "curVals (PushStep ps x y r) = curVals r @ [(x, y)]"
  "diffs (PushStep ps x y r) = diffs r"
  "ndiffs (PushStep ps x y r) = ndiffs r"
  "nbytes (PushStep ps x y r) = nbytes r"
  "nlines (PushStep ps x y r) = nlines r"
  by (simp_all add: PushStep_def Path_push_def)

subsection \<open>Runs\<close>

lemma run_append:
  "run F G (cs @ ds) r = (case run F G cs r of Inl e \<Rightarrow> Inl e | Inr r' \<Rightarrow> run F G ds r')"
  by (induction cs arbitrary: r) (auto split: sum.splits)

lemma run_ConsE:
  assumes "run F G (c # cs) r = Inr r'"
  obtains r1 where "do_call F G c r = Inr r1" and "run F G cs r1 = Inr r'"
  using assms by (auto split: sum.splits)

lemma run_invariant:
  assumes "P r" and "run F G cs r = Inr r'"
    and step: "\<And>c r r'. P r \<Longrightarrow> do_call F G c r = Inr r' \<Longrightarrow> P r'"
  shows "P r'"
  using assms(1,2)
proof (induction cs arbitrary: r)
  case Nil
  then show ?case by simp
next
  case (Cons c cs)
  from Cons.prems(2) obtain r1 where c: "do_call F G c r = Inr r1" and rest: "run F G cs r1 = Inr r'"
    by (rule run_ConsE)
  from step [OF Cons.prems(1) c] have "P r1" .
  from Cons.IH [OF this rest] show ?case .
qed

lemma do_call_Inr_cases:
  assumes "do_call F G c r = Inr r'"
  obtains (push) ps x y where "c = Push ps x y" "r' = PushStep ps x y r"
  | (skip) f where "c = Rep f" "f \<noteq> reportUnequal" "r' = r"
  | (unequal) "c = Rep reportUnequal" "curVals r \<noteq> []"
      "r' = report F G (fst (last (curVals r))) (snd (last (curVals r))) (curPath r) r"
  | (pop) "c = Pop" "curPath r \<noteq> []" "curVals r \<noteq> []"
      "r' = r\<lparr>curPath := butlast (curPath r), curVals := butlast (curVals r)\<rparr>"
  using assms by (cases c) (auto simp: Report_Inr PopStep_Inr split: if_splits)

text \<open>The two stacks hold the open frames.\<close>

lemma run_frames:
  "curPath r = map fst st \<Longrightarrow> curVals r = map snd st \<Longrightarrow> run F G cs r = Inr r' \<Longrightarrow>
   curPath r' = map fst (open_frames st cs) \<and> curVals r' = map snd (open_frames st cs)"
proof (induction cs arbitrary: r st)
  case Nil
  then show ?case by simp
next
  case (Cons c cs)
  from Cons.prems(3) obtain r1 where c: "do_call F G c r = Inr r1" and rest: "run F G cs r1 = Inr r'"
    by (rule run_ConsE)
  from c show ?case
  proof (cases rule: do_call_Inr_cases)
    case (push ps x y)
    with Cons.prems(1,2) have "curPath r1 = map fst (st @ [(ps, x, y)])"
      "curVals r1 = map snd (st @ [(ps, x, y)])"
      by (simp_all add: PushStep_fields)
    from Cons.IH [OF this rest] push show ?thesis by simp
  next
    case (skip f)
    with Cons.IH [OF Cons.prems(1,2)] rest show ?thesis by simp
  next
    case unequal
    with Cons.prems(1,2) have "curPath r1 = map fst st" "curVals r1 = map snd st"
      by (simp_all add: report_stacks)
    from Cons.IH [OF this rest] unequal show ?thesis by simp
  next
    case pop
    with Cons.prems(1,2) have "curPath r1 = map fst (butlast st)" "curVals r1 = map snd (butlast st)"
      by (simp_all add: map_butlast)
    from Cons.IH [OF this rest] pop show ?thesis by simp
  qed
qed

lemma depth_Cons: "depth (c # cs) = depth_change c + depth cs"
  by (simp add: depth_def)

lemma depth_Nil: "depth [] = 0"
  by (simp add: depth_def)

lemma run_depth:
  "length (curPath r) = d \<Longrightarrow> length (curVals r) = d \<Longrightarrow> run F G cs r = Inr r' \<Longrightarrow>
   int (length (curPath r')) = int d + depth cs \<and> length (curVals r') = length (curPath r')"
proof (induction cs arbitrary: r d)
  case Nil
  then show ?case by (simp add: depth_Nil)
next
  case (Cons c cs)
  from Cons.prems(3) obtain r1 where c: "do_call F G c r = Inr r1" and rest: "run F G cs r1 = Inr r'"
    by (rule run_ConsE)
  from c show ?case
  proof (cases rule: do_call_Inr_cases)
    case (push ps x y)
    with Cons.prems(1,2) have "length (curPath r1) = Suc d" "length (curVals r1) = Suc d"
      by (simp_all add: PushStep_fields)
    from Cons.IH [OF this rest] push show ?thesis by (simp add: depth_Cons)
  next
    case (skip f)
    with Cons.IH [OF Cons.prems(1,2)] rest show ?thesis by (simp add: depth_Cons)
  next
    case unequal
    with Cons.prems(1,2) have "length (curPath r1) = d" "length (curVals r1) = d"
      by (simp_all add: report_stacks)
    from Cons.IH [OF this rest] unequal show ?thesis by (simp add: depth_Cons)
  next
    case pop
    with Cons.prems(1,2) have d: "0 < d" by auto
    from pop Cons.prems(1,2) have "length (curPath r1) = d - 1" "length (curVals r1) = d - 1"
      by simp_all
    from Cons.IH [OF this rest] pop d show ?thesis by (simp add: depth_Cons of_nat_diff)
  qed
qed

text \<open>A run returns exactly on the well nested lists of calls.\<close>

lemma run_returns_iff:
  "length (curPath r) = d \<Longrightarrow> length (curVals r) = d \<Longrightarrow>
   (\<exists>r'. run F G cs r = Inr r') = well_nested d cs"
proof (induction cs arbitrary: r d)
  case Nil
  then show ?case by simp
next
  case (Cons c cs)
  show ?case
  proof (cases c)
    case (Push ps x y)
    have "length (curPath (PushStep ps x y r)) = Suc d" "length (curVals (PushStep ps x y r)) = Suc d"
      using Cons.prems by (simp_all add: PushStep_fields)
    from Cons.IH [OF this] Push show ?thesis by simp
  next
    case (Rep f)
    show ?thesis
    proof (cases "f = reportUnequal")
      case False
      with Rep Cons.IH [OF Cons.prems] show ?thesis by (simp add: Report_def)
    next
      case True
      show ?thesis
      proof (cases "d = 0")
        case True
        with Cons.prems Rep \<open>f = reportUnequal\<close> show ?thesis by (simp add: Report_def)
      next
        case False
        let ?r1 = "report F G (fst (last (curVals r))) (snd (last (curVals r))) (curPath r) r"
        have "length (curPath ?r1) = d" "length (curVals ?r1) = d"
          using Cons.prems by (simp_all add: report_stacks)
        from Cons.IH [OF this] False Cons.prems Rep \<open>f = reportUnequal\<close> show ?thesis
          by (auto simp: Report_def Let_def)
      qed
    qed
  next
    case Pop
    show ?thesis
    proof (cases "d = 0")
      case True
      with Cons.prems Pop show ?thesis by (simp add: PopStep_def Path_pop_def)
    next
      case False
      let ?r1 = "r\<lparr>curPath := butlast (curPath r), curVals := butlast (curVals r)\<rparr>"
      have "length (curPath ?r1) = d - 1" "length (curVals ?r1) = d - 1"
        using Cons.prems by simp_all
      from Cons.IH [OF this] False Cons.prems Pop show ?thesis
        by (auto simp: PopStep_def Path_pop_def)
    qed
  qed
qed

lemma unequal_count_Cons:
  "unequal_count (c # cs) = (if c = Rep reportUnequal then 1 else 0) + unequal_count cs"
  by (simp add: unequal_count_def)

lemma run_ndiffs:
  "run F G cs r = Inr r' \<Longrightarrow> ndiffs r' = ndiffs r + int (unequal_count cs)"
proof (induction cs arbitrary: r)
  case Nil
  then show ?case by (simp add: unequal_count_def)
next
  case (Cons c cs)
  from Cons.prems obtain r1 where c: "do_call F G c r = Inr r1" and rest: "run F G cs r1 = Inr r'"
    by (rule run_ConsE)
  from c have "ndiffs r1 = ndiffs r + (if c = Rep reportUnequal then 1 else 0)"
    by (cases rule: do_call_Inr_cases) (simp_all add: PushStep_fields report_ndiffs)
  with Cons.IH [OF rest] show ?case by (simp add: unequal_count_Cons)
qed

text \<open>Once a cap is reached, the stored list and its two counters are frozen.\<close>

lemma do_call_latched:
  assumes "maxBytes \<le> nbytes r \<or> maxLines \<le> nlines r" and "do_call F G c r = Inr r'"
  shows "diffs r' = diffs r \<and> nbytes r' = nbytes r \<and> nlines r' = nlines r"
  using assms(2)
proof (cases rule: do_call_Inr_cases)
  case unequal
  with assms(1) show ?thesis by (auto simp: report_fields)
qed (simp_all add: PushStep_fields)

lemma run_latched:
  "maxBytes \<le> nbytes r \<or> maxLines \<le> nlines r \<Longrightarrow> run F G cs r = Inr r' \<Longrightarrow>
   diffs r' = diffs r \<and> nbytes r' = nbytes r \<and> nlines r' = nlines r"
proof (induction cs arbitrary: r)
  case Nil
  then show ?case by simp
next
  case (Cons c cs)
  from Cons.prems(2) obtain r1 where c: "do_call F G c r = Inr r1" and rest: "run F G cs r1 = Inr r'"
    by (rule run_ConsE)
  from do_call_latched [OF Cons.prems(1) c]
  have eq: "diffs r1 = diffs r \<and> nbytes r1 = nbytes r \<and> nlines r1 = nlines r" .
  with Cons.prems(1) have "maxBytes \<le> nbytes r1 \<or> maxLines \<le> nlines r1" by simp
  from Cons.IH [OF this rest] eq show ?case by simp
qed

lemma do_call_stored_le:
  assumes "int (length (diffs r)) \<le> ndiffs r" and "do_call F G c r = Inr r'"
  shows "int (length (diffs r')) \<le> ndiffs r'"
  using assms(2)
proof (cases rule: do_call_Inr_cases)
  case unequal
  with assms(1) show ?thesis by (simp add: report_fields)
qed (use assms(1) in \<open>simp_all add: PushStep_fields\<close>)

lemma run_stored_le:
  assumes "int (length (diffs r)) \<le> ndiffs r" and "run F G cs r = Inr r'"
  shows "int (length (diffs r')) \<le> ndiffs r'"
  using assms do_call_stored_le
  by (rule run_invariant [where P = "\<lambda>r. int (length (diffs r)) \<le> ndiffs r"])

lemma do_call_accounted:
  assumes "accounted r" and "do_call F G c r = Inr r'"
  shows "accounted r'"
  using assms(2)
proof (cases rule: do_call_Inr_cases)
  case unequal
  with assms(1) show ?thesis
    by (simp add: accounted_def report_fields strings_Join_empty_def Count_newline_append)
qed (use assms(1) in \<open>simp_all add: accounted_def PushStep_fields\<close>)

lemma run_accounted:
  assumes "accounted r" and "run F G cs r = Inr r'"
  shows "accounted r'"
  using assms do_call_accounted by (rule run_invariant [where P = accounted])

lemma accounted_new: "accounted new_defaultReporter"
  by (simp add: accounted_def new_defaultReporter_def strings_Join_empty_def
      Count_newline_Nil maxBytes_def maxLines_def)

lemma run_diffs_prefix:
  "curPath r = map fst st \<Longrightarrow> curVals r = map snd st \<Longrightarrow> run F G cs r = Inr r' \<Longrightarrow>
   \<exists>k. diffs r' = diffs r @ take k (spec_entries F G st cs)"
proof (induction cs arbitrary: r st)
  case Nil
  then show ?case by simp
next
  case (Cons c cs)
  from Cons.prems(3) obtain r1 where c: "do_call F G c r = Inr r1" and rest: "run F G cs r1 = Inr r'"
    by (rule run_ConsE)
  from c show ?case
  proof (cases rule: do_call_Inr_cases)
    case (push ps x y)
    with Cons.prems(1,2) have "curPath r1 = map fst (st @ [(ps, x, y)])"
      "curVals r1 = map snd (st @ [(ps, x, y)])"
      by (simp_all add: PushStep_fields)
    from Cons.IH [OF this rest] push show ?thesis by (simp add: PushStep_fields)
  next
    case (skip f)
    with Cons.IH [OF Cons.prems(1,2)] rest show ?thesis by simp
  next
    case unequal
    with Cons.prems(1,2) have st: "st \<noteq> []" by auto
    from unequal Cons.prems(1,2) have stacks: "curPath r1 = map fst st" "curVals r1 = map snd st"
      by (simp_all add: report_stacks)
    let ?e = "spec_entry F G (map fst st) (fst (snd (last st))) (snd (snd (last st)))"
    have r1: "r1 = report F G (fst (snd (last st))) (snd (snd (last st))) (map fst st) r"
      using unequal Cons.prems(1,2) st by (simp add: last_map)
    show ?thesis
    proof (cases "nbytes r < maxBytes \<and> nlines r < maxLines")
      case True
      then have d1: "diffs r1 = diffs r @ [?e]" by (simp add: r1 report_diffs)
      from Cons.IH [OF stacks rest] obtain k where "diffs r' = diffs r1 @ take k (spec_entries F G st cs)"
        by blast
      with d1 have "diffs r' = diffs r @ take (Suc k) (?e # spec_entries F G st cs)" by simp
      with unequal st show ?thesis by (intro exI [of _ "Suc k"]) simp
    next
      case False
      then have "diffs r1 = diffs r" "maxBytes \<le> nbytes r1 \<or> maxLines \<le> nlines r1"
        by (auto simp: r1 report_fields)
      with run_latched [OF this(2) rest] have "diffs r' = diffs r" by simp
      then show ?thesis by (intro exI [of _ 0]) simp
    qed
  next
    case pop
    with Cons.prems(1,2) have "curPath r1 = map fst (butlast st)" "curVals r1 = map snd (butlast st)"
      by (simp_all add: map_butlast)
    from Cons.IH [OF this rest] pop show ?thesis by simp
  qed
qed

lemma spec_entries_length:
  "well_nested (length st) cs \<Longrightarrow> length (spec_entries F G st cs) = unequal_count cs"
proof (induction cs arbitrary: st)
  case Nil
  then show ?case by (simp add: unequal_count_def)
next
  case (Cons c cs)
  show ?case
  proof (cases c)
    case (Push ps x y)
    with Cons.prems have "well_nested (length (st @ [(ps, x, y)])) cs" by simp
    from Cons.IH [OF this] Push show ?thesis by (simp add: unequal_count_Cons)
  next
    case (Rep f)
    with Cons.prems have "well_nested (length st) cs" by (simp split: if_splits)
    from Cons.IH [OF this] Rep Cons.prems show ?thesis
      by (auto simp: unequal_count_Cons split: if_splits)
  next
    case Pop
    with Cons.prems have "well_nested (length (butlast st)) cs" by simp
    from Cons.IH [OF this] Pop show ?thesis by (simp add: unequal_count_Cons)
  qed
qed

lemma new_stacks:
  "curPath new_defaultReporter = map fst []" "curVals new_defaultReporter = map snd []"
  "length (curPath new_defaultReporter) = 0" "length (curVals new_defaultReporter) = 0"
  by (simp_all add: new_defaultReporter_def)

lemma new_counters:
  "diffs new_defaultReporter = []" "ndiffs new_defaultReporter = 0"
  "nbytes new_defaultReporter = 0" "nlines new_defaultReporter = 0"
  by (simp_all add: new_defaultReporter_def)

lemma String_fst:
  "fst (String r) =
     (if ndiffs r = int (length (diffs r)) then concat (diffs r)
      else concat (diffs r) @ ''... '' @ Sprintf_d (ndiffs r - int (length (diffs r))) @
           '' more differences ...'')"
  by (simp add: String_def Let_def strings_Join_empty_def Sprintf_more_def)

lemma String_snd: "snd (String r) = r"
  by (simp add: String_def Let_def)

lemma decimal_digit_not_newline: "k < 10 \<Longrightarrow> char_of (48 + k :: nat) \<noteq> newline"
proof
  assume k: "k < 10" and eq: "char_of (48 + k) = newline"
  from eq have "(of_char (char_of (48 + k)) :: nat) = of_char newline" by simp
  with k show False by (simp add: newline_def)
qed

lemma decimal_digits_no_newline: "newline \<notin> set (decimal_digits n)"
proof (induction n rule: decimal_digits.induct)
  case (1 n)
  show ?case
  proof (cases "n < 10")
    case True
    with decimal_digit_not_newline [of n] show ?thesis
      by (subst decimal_digits.simps) auto
  next
    case False
    have "n mod 10 < 10" by simp
    from decimal_digit_not_newline [OF this] 1 False show ?thesis
      by (subst decimal_digits.simps) auto
  qed
qed

lemma Sprintf_d_no_newline: "newline \<notin> set (Sprintf_d i)"
  using decimal_digits_no_newline [of "nat i"] decimal_digits_no_newline [of "nat (- i)"]
  by (simp add: Sprintf_d_def newline_def)

lemma suffix_one_line: "strings_Count_newline (''... '' @ Sprintf_d n @ '' more differences ...'') = 0"
  using Sprintf_d_no_newline [of n]
  by (simp add: strings_Count_newline_def newline_def filter_empty_conv) blast

lemma well_nested_take: "well_nested d cs \<Longrightarrow> well_nested d (take n cs)"
proof (induction cs arbitrary: d n)
  case Nil
  then show ?case by simp
next
  case (Cons c cs)
  show ?case
  proof (cases n)
    case 0
    then show ?thesis by simp
  next
    case (Suc m)
    with Cons show ?thesis by (cases c) (auto split: if_splits)
  qed
qed

lemma run_new_returns: "well_nested 0 cs \<Longrightarrow> \<exists>r. run F G cs new_defaultReporter = Inr r"
  using run_returns_iff [of new_defaultReporter 0 F G cs] by (simp add: new_stacks)

lemma run_new_depth:
  assumes "run F G cs new_defaultReporter = Inr r"
  shows "int (length (curPath r)) = depth cs" and "length (curVals r) = length (curPath r)"
  using run_depth [OF _ _ assms, of 0] by (simp_all add: new_stacks)

lemma take_length_take: "take (length (take k xs)) xs = take k xs"
  by (simp add: min_def)

subsection \<open>The concrete traversals\<close>

lemma run_leaf:
  "run F G [Push ps x y, Rep reportUnequal, Pop] r = Inr (report F G x y (curPath r @ [ps]) r)"
  by (simp add: Report_def PopStep_def Path_pop_def PushStep_def Path_push_def report_def Let_def)

lemma ex_leaf_entry:
  "spec_entry ex_Format ex_GoString [''{T}'', ''.A''] (''int'', ''1'') (''int'', ''2'') =
   Sprintf_diff ''{T}.A'' ''1'' ''2''"
  by (simp add: spec_entry_def ex_Format_def ex_GoString_def friendly_def exact_def)

lemma ex_leaf_size:
  "length (Sprintf_diff ''{T}.A'' ''1'' ''2'') = 19"
  "strings_Count_newline (Sprintf_diff ''{T}.A'' ''1'' ''2'') = 3"
  by (simp_all add: Sprintf_diff_def strings_Count_newline_def newline_def tab_def)

lemma run_ex_leaves:
  "curPath r = [''{T}''] \<Longrightarrow> nbytes r + 19 * int n \<le> 4114 \<Longrightarrow> nlines r + 3 * int n \<le> 258 \<Longrightarrow>
   \<exists>r'. run ex_Format ex_GoString (concat (replicate n ex_leaf)) r = Inr r' \<and>
        curPath r' = curPath r \<and> curVals r' = curVals r \<and>
        nbytes r' = nbytes r + 19 * int n \<and> nlines r' = nlines r + 3 * int n \<and>
        ndiffs r' = ndiffs r + int n \<and> length (diffs r') = length (diffs r) + n"
proof (induction n arbitrary: r)
  case 0
  then show ?case by simp
next
  case (Suc n)
  let ?r1 = "report ex_Format ex_GoString (''int'', ''1'') (''int'', ''2'') (curPath r @ [''.A'']) r"
  have first: "run ex_Format ex_GoString ex_leaf r = Inr ?r1"
    unfolding ex_leaf_def by (rule run_leaf)
  from Suc.prems have under: "nbytes r < maxBytes \<and> nlines r < maxLines"
    by (simp add: maxBytes_def maxLines_def)
  with Suc.prems(1) have f1: "curPath ?r1 = [''{T}'']" "curVals ?r1 = curVals r"
    "nbytes ?r1 = nbytes r + 19" "nlines ?r1 = nlines r + 3" "ndiffs ?r1 = ndiffs r + 1"
    "length (diffs ?r1) = length (diffs r) + 1"
    by (simp_all add: report_fields ex_leaf_entry ex_leaf_size)
  from Suc.prems f1 have "nbytes ?r1 + 19 * int n \<le> 4114" "nlines ?r1 + 3 * int n \<le> 258"
    by simp_all
  from Suc.IH [OF f1(1) this] obtain r' where
    r': "run ex_Format ex_GoString (concat (replicate n ex_leaf)) ?r1 = Inr r'"
      "curPath r' = curPath ?r1" "curVals r' = curVals ?r1"
      "nbytes r' = nbytes ?r1 + 19 * int n" "nlines r' = nlines ?r1 + 3 * int n"
      "ndiffs r' = ndiffs ?r1 + int n" "length (diffs r') = length (diffs ?r1) + n"
    by blast
  have "run ex_Format ex_GoString (concat (replicate (Suc n) ex_leaf)) r = Inr r'"
    using first r'(1) by (simp add: run_append)
  with r' f1 Suc.prems(1) show ?case by simp
qed

lemma well_nested_ex_leaves:
  "well_nested (Suc d) (concat (replicate n ex_leaf) @ cs) = well_nested (Suc d) cs"
  by (induction n) (simp_all add: ex_leaf_def)

lemma unequal_count_append: "unequal_count (cs @ ds) = unequal_count cs + unequal_count ds"
  by (simp add: unequal_count_def)

lemma unequal_count_ex_leaves: "unequal_count (concat (replicate n ex_leaf)) = n"
  by (induction n) (simp_all add: unequal_count_append, simp_all add: unequal_count_def ex_leaf_def)

lemma ex_root_fields:
  "curPath (PushStep ''{T}'' (''T'', ''a'') (''T'', ''b'') new_defaultReporter) = [''{T}'']"
  "curVals (PushStep ''{T}'' (''T'', ''a'') (''T'', ''b'') new_defaultReporter) = [((''T'', ''a''), (''T'', ''b''))]"
  "diffs (PushStep ''{T}'' (''T'', ''a'') (''T'', ''b'') new_defaultReporter) = []"
  "ndiffs (PushStep ''{T}'' (''T'', ''a'') (''T'', ''b'') new_defaultReporter) = 0"
  "nbytes (PushStep ''{T}'' (''T'', ''a'') (''T'', ''b'') new_defaultReporter) = 0"
  "nlines (PushStep ''{T}'' (''T'', ''a'') (''T'', ''b'') new_defaultReporter) = 0"
  by (simp_all add: PushStep_fields new_defaultReporter_def)

lemma ex_big_differs: "replicate 5000 CHR ''x'' \<noteq> ''y''"
proof
  assume "replicate 5000 CHR ''x'' = ''y''"
  then have "length (replicate 5000 CHR ''x'') = length ''y''" by (rule arg_cong)
  then show False by simp
qed

lemma ex_big_entry_size:
  "4096 < length (spec_entry ex_Format ex_GoString [''{T}'', ''.S'']
      (''string'', replicate 5000 CHR ''x'') (''string'', ''y''))"
  by (simp add: spec_entry_def ex_Format_def ex_GoString_def friendly_def exact_def Sprintf_diff_def
      ex_big_differs)

lemma ex_big_entry_lines:
  "strings_Count_newline (spec_entry ex_Format ex_GoString [''{T}'', ''.S'']
      (''string'', replicate 5000 CHR ''x'') (''string'', ''y'')) = 3"
  by (simp add: spec_entry_def ex_Format_def ex_GoString_def friendly_def exact_def Sprintf_diff_def
      ex_big_differs strings_Count_newline_def newline_def tab_def)

lemma run_Pop:
  "curPath r \<noteq> [] \<Longrightarrow> curVals r \<noteq> [] \<Longrightarrow>
   run F G [Pop] r = Inr (r\<lparr>curPath := butlast (curPath r), curVals := butlast (curVals r)\<rparr>)"
  by (simp add: PopStep_def Path_pop_def)

lemma ex_overshoot_run:
  "\<exists>r. run ex_Format ex_GoString ex_overshoot new_defaultReporter = Inr r \<and>
       4096 < nbytes r \<and> nlines r = 258 \<and> ndiffs r = 86 \<and> length (diffs r) = 86"
proof -
  let ?r0 = "PushStep ''{T}'' (''T'', ''a'') (''T'', ''b'') new_defaultReporter"
  from run_ex_leaves [of ?r0 85] obtain r1 where
    r1: "run ex_Format ex_GoString (concat (replicate 85 ex_leaf)) ?r0 = Inr r1"
      "curPath r1 = [''{T}'']" "curVals r1 = [((''T'', ''a''), (''T'', ''b''))]"
      "nbytes r1 = 1615" "nlines r1 = 255" "ndiffs r1 = 85" "length (diffs r1) = 85"
    by (auto simp: ex_root_fields)
  let ?r2 = "report ex_Format ex_GoString (''string'', replicate 5000 CHR ''x'') (''string'', ''y'')
      (curPath r1 @ [''.S'']) r1"
  have big: "run ex_Format ex_GoString ex_big_leaf r1 = Inr ?r2"
    unfolding ex_big_leaf_def by (rule run_leaf)
  have r2: "curPath ?r2 \<noteq> []" "curVals ?r2 \<noteq> []"
    "4096 < nbytes ?r2" "nlines ?r2 = 258" "ndiffs ?r2 = 86" "length (diffs ?r2) = 86"
    using r1(2-) ex_big_entry_size ex_big_entry_lines
    by (simp_all add: report_fields maxBytes_def maxLines_def)
  let ?r3 = "?r2\<lparr>curPath := butlast (curPath ?r2), curVals := butlast (curVals ?r2)\<rparr>"
  have pop: "run ex_Format ex_GoString [Pop] ?r2 = Inr ?r3"
    using r2(1,2) by (rule run_Pop)
  have "run ex_Format ex_GoString ex_overshoot new_defaultReporter = Inr ?r3"
    unfolding ex_overshoot_def using r1(1) big pop by (simp add: run_append)
  moreover have "4096 < nbytes ?r3" "nlines ?r3 = 258" "ndiffs ?r3 = 86" "length (diffs ?r3) = 86"
    using r2(3-) by simp_all
  ultimately show ?thesis by blast
qed

lemma ex_many_run:
  "\<exists>r. run ex_Format ex_GoString ex_many new_defaultReporter = Inr r \<and>
       nbytes r = 1634 \<and> nlines r = 258 \<and> ndiffs r = 300 \<and> length (diffs r) = 86"
proof -
  let ?r0 = "PushStep ''{T}'' (''T'', ''a'') (''T'', ''b'') new_defaultReporter"
  have split: "ex_many = Push ''{T}'' (''T'', ''a'') (''T'', ''b'') #
      concat (replicate 86 ex_leaf) @ concat (replicate 214 ex_leaf) @ [Pop]"
    using replicate_add [of 86 214 ex_leaf] by (simp add: ex_many_def)
  have "well_nested 0 ex_many"
    by (simp add: ex_many_def well_nested_ex_leaves)
  from run_new_returns [OF this] obtain r where
    r: "run ex_Format ex_GoString ex_many new_defaultReporter = Inr r" by blast
  from run_ex_leaves [of ?r0 86] obtain r1 where
    r1: "run ex_Format ex_GoString (concat (replicate 86 ex_leaf)) ?r0 = Inr r1"
      "nbytes r1 = 1634" "nlines r1 = 258" "length (diffs r1) = 86"
    by (auto simp: ex_root_fields)
  from r r1(1) have rest: "run ex_Format ex_GoString (concat (replicate 214 ex_leaf) @ [Pop]) r1 = Inr r"
    by (simp add: split run_append)
  from r1 have "maxBytes \<le> nbytes r1 \<or> maxLines \<le> nlines r1" by (simp add: maxLines_def)
  from run_latched [OF this rest] r1 have "nbytes r = 1634" "nlines r = 258" "length (diffs r) = 86"
    by simp_all
  moreover from run_ndiffs [OF r] have "ndiffs r = 300"
    by (simp add: new_counters ex_many_def unequal_count_Cons unequal_count_append
        unequal_count_ex_leaves) (simp add: unequal_count_def)
  ultimately show ?thesis using r by blast
qed

lemma ex_masked_run:
  "\<exists>r. run ex_Format ex_GoString ex_masked new_defaultReporter = Inr r \<and>
     fst (String r) =
       ''{T}.N:'' @ [CHR 0x0A, CHR 0x09] @ ''-: int(1)'' @ [CHR 0x0A, CHR 0x09] @ ''+: uint(1)'' @ [CHR 0x0A]"
  by (simp add: ex_masked_def Report_def PopStep_def Path_pop_def PushStep_def Path_push_def
      report_def Let_def new_defaultReporter_def maxBytes_def maxLines_def ex_Format_def
      ex_GoString_def Sprintf_diff_def newline_def tab_def String_def strings_Join_empty_def
      strings_Count_newline_def)

lemma Sprintf_d_214: "Sprintf_d 214 = ''214''"
  by code_simp

lemma Count_newline_le_length: "strings_Count_newline s \<le> length s"
  by (simp add: strings_Count_newline_def)

lemma unequal_count_le_length: "unequal_count cs \<le> length cs"
  by (simp add: unequal_count_def)

text \<open>The bounds on the counters that justify unbounded integers in the model.\<close>

lemma counters_bounded:
  assumes "run F G cs new_defaultReporter = Inr r"
  shows "0 \<le> ndiffs r \<and> ndiffs r \<le> int (length cs) \<and>
    nbytes r = int (length (strings_Join_empty (diffs r))) \<and>
    0 \<le> nlines r \<and> nlines r \<le> nbytes r"
proof -
  from run_ndiffs [OF assms] have n: "ndiffs r = int (unequal_count cs)"
    by (simp add: new_counters)
  from accounted_new assms have "accounted r" by (rule run_accounted)
  then have b: "nbytes r = int (length (strings_Join_empty (diffs r)))"
    and l: "nlines r = int (strings_Count_newline (strings_Join_empty (diffs r)))"
    by (simp_all add: accounted_def)
  from n unequal_count_le_length [of cs] have "0 \<le> ndiffs r" "ndiffs r \<le> int (length cs)"
    by simp_all
  moreover from b l Count_newline_le_length [of "strings_Join_empty (diffs r)"]
  have "0 \<le> nlines r" "nlines r \<le> nbytes r" by simp_all
  ultimately show ?thesis using b by simp
qed

section \<open>The claims\<close>

subsection \<open>C1\<close>

text \<open>
  Claim C1, as amended. The claim says that a block is stored only if the stored text
  stays within 4096 bytes and 256 lines with it. The guard of \<open>report\<close> reads the two
  counters before the block is rendered and never looks at the size of the block: a
  block is stored exactly when the text stored so far has fewer than 4096 bytes and
  fewer than 256 lines. So on every run from a fresh reporter the counters are the bytes
  and the newlines of the stored text, and the stored text without its last block is
  under both caps; the last block may pass them.
\<close>

theorem report_soft_caps:
  "diffs (report F G x y p r0) =
     (if nbytes r0 < 4096 \<and> nlines r0 < 256 then diffs r0 @ [spec_entry F G p x y] else diffs r0) \<and>
   (run F G cs new_defaultReporter = Inr r \<longrightarrow>
      nbytes r = int (length (strings_Join_empty (diffs r))) \<and>
      nlines r = int (strings_Count_newline (strings_Join_empty (diffs r))) \<and>
      length (strings_Join_empty (butlast (diffs r))) < 4096 \<and>
      strings_Count_newline (strings_Join_empty (butlast (diffs r))) < 256)"
proof (intro conjI impI)
  show "diffs (report F G x y p r0) =
     (if nbytes r0 < 4096 \<and> nlines r0 < 256 then diffs r0 @ [spec_entry F G p x y] else diffs r0)"
    by (simp add: report_diffs maxBytes_def maxLines_def)
next
  assume "run F G cs new_defaultReporter = Inr r"
  with accounted_new have a: "accounted r" by (rule run_accounted)
  from a show "nbytes r = int (length (strings_Join_empty (diffs r)))"
    by (simp add: accounted_def)
  from a show "nlines r = int (strings_Count_newline (strings_Join_empty (diffs r)))"
    by (simp add: accounted_def)
  from a show "length (strings_Join_empty (butlast (diffs r))) < 4096"
    by (simp add: accounted_def maxBytes_def)
  from a show "strings_Count_newline (strings_Join_empty (butlast (diffs r))) < 256"
    by (simp add: accounted_def maxLines_def)
qed

text \<open>On the traversal with 300 unequal leaves the run returns and the bounds hold.\<close>

theorem report_soft_caps_witness:
  "\<exists>r. run ex_Format ex_GoString ex_many new_defaultReporter = Inr r \<and>
       nbytes r = int (length (strings_Join_empty (diffs r))) \<and>
       nlines r = int (strings_Count_newline (strings_Join_empty (diffs r))) \<and>
       length (strings_Join_empty (butlast (diffs r))) < 4096 \<and>
       strings_Count_newline (strings_Join_empty (butlast (diffs r))) < 256"
proof -
  from ex_many_run obtain r where r: "run ex_Format ex_GoString ex_many new_defaultReporter = Inr r"
    by blast
  from report_soft_caps [of ex_Format ex_GoString undefined undefined "[]" new_defaultReporter ex_many r] r
  show ?thesis by blast
qed

text \<open>
  The claim C1 as stated fails on the traversal \<open>ex_overshoot\<close>: after 85 short
  blocks (1615 bytes, 255 lines) the block of the big leaf is stored as well, and the
  stored text then has more than 4096 bytes and 258 lines.
\<close>

theorem stored_text_exceeds_caps:
  "\<not> isl (run ex_Format ex_GoString ex_overshoot new_defaultReporter) \<and>
   4096 < length (strings_Join_empty (diffs (projr (run ex_Format ex_GoString ex_overshoot new_defaultReporter)))) \<and>
   256 < strings_Count_newline (strings_Join_empty (diffs (projr (run ex_Format ex_GoString ex_overshoot new_defaultReporter))))"
proof -
  from ex_overshoot_run obtain r where
    r: "run ex_Format ex_GoString ex_overshoot new_defaultReporter = Inr r"
    and big: "4096 < nbytes r" "nlines r = 258"
    by blast
  from accounted_new r have "accounted r" by (rule run_accounted)
  with big have "4096 < length (strings_Join_empty (diffs r))"
    "256 < strings_Count_newline (strings_Join_empty (diffs r))"
    by (simp_all add: accounted_def)
  with r show ?thesis by simp
qed

subsection \<open>C2\<close>

text \<open>
  Claim C2. After any list of calls from a fresh reporter that returns, the total tally
  is the number of unequal reports, the stored blocks are the first blocks of the
  unequal leaves in traversal order, and String returns their concatenation when every
  block was stored, and otherwise the concatenation followed by
  \<open>... n more differences ...\<close> with \<open>n\<close> the tally minus the number of stored
  blocks; the suffix holds no newline.
\<close>

theorem finalReport_text:
  assumes "run F G cs new_defaultReporter = Inr r"
  shows "ndiffs r = int (unequal_count cs) \<and>
    length (spec_entries F G [] cs) = unequal_count cs \<and>
    diffs r = take (length (diffs r)) (spec_entries F G [] cs) \<and>
    fst (String r) =
      (if length (diffs r) = unequal_count cs then concat (diffs r)
       else concat (diffs r) @ ''... '' @
            Sprintf_d (int (unequal_count cs) - int (length (diffs r))) @
            '' more differences ...'') \<and>
    strings_Count_newline
      (''... '' @ Sprintf_d (int (unequal_count cs) - int (length (diffs r))) @
       '' more differences ...'') = 0"
proof -
  have n: "ndiffs r = int (unequal_count cs)"
    using run_ndiffs [OF assms] by (simp add: new_counters)
  from assms have "well_nested 0 cs"
    using run_returns_iff [of new_defaultReporter 0 F G cs] by (auto simp: new_stacks)
  then have l: "length (spec_entries F G [] cs) = unequal_count cs"
    using spec_entries_length [of "[]" cs F G] by simp
  from run_diffs_prefix [OF new_stacks(1,2) assms]
  obtain k where "diffs r = take k (spec_entries F G [] cs)"
    by (auto simp: new_counters)
  then have d: "diffs r = take (length (diffs r)) (spec_entries F G [] cs)"
    using take_length_take [of k "spec_entries F G [] cs"] by simp
  have s: "fst (String r) =
      (if length (diffs r) = unequal_count cs then concat (diffs r)
       else concat (diffs r) @ ''... '' @
            Sprintf_d (int (unequal_count cs) - int (length (diffs r))) @
            '' more differences ...'')"
    using n by (simp add: String_fst)
  show ?thesis by (intro conjI) (rule n l d s suffix_one_line)+
qed

text \<open>With 300 unequal leaves, 86 blocks are stored and the suffix counts 214.\<close>

theorem finalReport_text_witness:
  "\<exists>r. run ex_Format ex_GoString ex_many new_defaultReporter = Inr r \<and>
       ndiffs r = 300 \<and> length (diffs r) = 86 \<and>
       fst (String r) = concat (diffs r) @ ''... 214 more differences ...''"
proof -
  from ex_many_run obtain r where r: "run ex_Format ex_GoString ex_many new_defaultReporter = Inr r"
    and n: "ndiffs r = 300" and l: "length (diffs r) = 86"
    by blast
  from finalReport_text [OF r] n have u: "unequal_count ex_many = 300" by simp
  from finalReport_text [OF r] have "fst (String r) =
      (if length (diffs r) = unequal_count ex_many then concat (diffs r)
       else concat (diffs r) @ ''... '' @
            Sprintf_d (int (unequal_count ex_many) - int (length (diffs r))) @
            '' more differences ...'')"
    by blast
  with u l have "fst (String r) = concat (diffs r) @ ''... 214 more differences ...''"
    by (simp add: Sprintf_d_214)
  with r n l show ?thesis by blast
qed

subsection \<open>C3\<close>

text \<open>
  Claim C3. A Report call with the unequal flag that returns has added one to the total
  tally. From a reporter whose byte counter has reached 4096 or whose line counter has
  reached 256, no list of calls changes the stored blocks or the two counters, and the
  tally still grows by the number of unequal reports.
\<close>

theorem truncation_latch:
  "(Report F G reportUnequal r0 = Inr r1 \<longrightarrow> ndiffs r1 = ndiffs r0 + 1) \<and>
   ((4096 \<le> nbytes r \<or> 256 \<le> nlines r) \<and> run F G cs r = Inr r' \<longrightarrow>
      diffs r' = diffs r \<and> nbytes r' = nbytes r \<and> nlines r' = nlines r \<and>
      ndiffs r' = ndiffs r + int (unequal_count cs))"
proof -
  have tally: "Report F G reportUnequal r0 = Inr r1 \<longrightarrow> ndiffs r1 = ndiffs r0 + 1"
    by (simp add: Report_Inr report_ndiffs)
  have latch: "diffs r' = diffs r \<and> nbytes r' = nbytes r \<and> nlines r' = nlines r \<and>
      ndiffs r' = ndiffs r + int (unequal_count cs)"
    if cap: "4096 \<le> nbytes r \<or> 256 \<le> nlines r" and run: "run F G cs r = Inr r'"
  proof -
    from cap have "maxBytes \<le> nbytes r \<or> maxLines \<le> nlines r"
      by (simp add: maxBytes_def maxLines_def)
    from run_latched [OF this run] run_ndiffs [OF run] show ?thesis by simp
  qed
  from tally latch show ?thesis by blast
qed

text \<open>After 86 short blocks the line counter is 258; one more unequal leaf is only
  tallied.\<close>

theorem truncation_latch_witness:
  "\<exists>r r'. run ex_Format ex_GoString
           (Push ''{T}'' (''T'', ''a'') (''T'', ''b'') # concat (replicate 86 ex_leaf))
           new_defaultReporter = Inr r \<and>
     256 \<le> nlines r \<and>
     run ex_Format ex_GoString ex_leaf r = Inr r' \<and>
     diffs r' = diffs r \<and> nbytes r' = nbytes r \<and> nlines r' = nlines r \<and>
     ndiffs r' = ndiffs r + 1"
proof -
  let ?r0 = "PushStep ''{T}'' (''T'', ''a'') (''T'', ''b'') new_defaultReporter"
  from run_ex_leaves [of ?r0 86] obtain r where
    r: "run ex_Format ex_GoString (concat (replicate 86 ex_leaf)) ?r0 = Inr r" "nlines r = 258"
    by (auto simp: ex_root_fields)
  obtain r' where r': "run ex_Format ex_GoString ex_leaf r = Inr r'"
    unfolding ex_leaf_def by (simp only: run_leaf)
  have c: "unequal_count ex_leaf = 1"
    by (simp add: unequal_count_def ex_leaf_def)
  from r(2) have cap: "4096 \<le> nbytes r \<or> 256 \<le> nlines r" by simp
  from truncation_latch [of ex_Format ex_GoString undefined undefined r ex_leaf r'] cap r' c
  have "diffs r' = diffs r \<and> nbytes r' = nbytes r \<and> nlines r' = nlines r \<and> ndiffs r' = ndiffs r + 1"
    by simp
  with r r' show ?thesis by auto
qed

subsection \<open>C4\<close>

text \<open>
  Claim C4. Under the caps, when the friendly renderings of the two values are the same
  text, the stored block is the text of the path, a colon and a newline, then a tab,
  \<open>-: \<close>, the exact rendering of the left value and a newline, then a tab, \<open>+: \<close>, the
  exact rendering of the right value and a newline. When the friendly renderings differ,
  the stored block has the same shape with the friendly renderings, left before right,
  and the result of \<open>report\<close> does not depend on what the formatter does in any other
  mode, so nothing is rendered again.
\<close>

theorem report_rendering:
  assumes "nbytes r < 4096" and "nlines r < 256"
  shows
    "(F x \<lparr>UseStringer = True, PrintPrimitiveType = False\<rparr> =
      F y \<lparr>UseStringer = True, PrintPrimitiveType = False\<rparr> \<longrightarrow>
        diffs (report F G x y p r) =
          diffs r @
          [G p @ '':'' @ [CHR 0x0A, CHR 0x09] @ ''-: '' @
           F x \<lparr>UseStringer = False, PrintPrimitiveType = True\<rparr> @
           [CHR 0x0A, CHR 0x09] @ ''+: '' @
           F y \<lparr>UseStringer = False, PrintPrimitiveType = True\<rparr> @ [CHR 0x0A]]) \<and>
     (F x \<lparr>UseStringer = True, PrintPrimitiveType = False\<rparr> \<noteq>
      F y \<lparr>UseStringer = True, PrintPrimitiveType = False\<rparr> \<longrightarrow>
        diffs (report F G x y p r) =
          diffs r @
          [G p @ '':'' @ [CHR 0x0A, CHR 0x09] @ ''-: '' @
           F x \<lparr>UseStringer = True, PrintPrimitiveType = False\<rparr> @
           [CHR 0x0A, CHR 0x09] @ ''+: '' @
           F y \<lparr>UseStringer = True, PrintPrimitiveType = False\<rparr> @ [CHR 0x0A]] \<and>
        (\<forall>F'. (\<forall>v. F' v \<lparr>UseStringer = True, PrintPrimitiveType = False\<rparr> =
                    F v \<lparr>UseStringer = True, PrintPrimitiveType = False\<rparr>) \<longrightarrow>
           report F' G x y p r = report F G x y p r))"
proof -
  have caps: "nbytes r < maxBytes \<and> nlines r < maxLines"
    using assms by (simp add: maxBytes_def maxLines_def)
  have block: "Sprintf_diff q sx sy =
      q @ '':'' @ [CHR 0x0A, CHR 0x09] @ ''-: '' @ sx @ [CHR 0x0A, CHR 0x09] @ ''+: '' @ sy @ [CHR 0x0A]"
    for q sx sy
    by (simp add: Sprintf_diff_def newline_def tab_def)
  show ?thesis
    using caps by (simp add: report_def Let_def block)
qed

text \<open>An int and a uint that both print as 1, two ints that print differently, and the
  final text of the traversal with the int and the uint.\<close>

theorem report_rendering_witness:
  "nbytes (new_defaultReporter :: (string, string \<times> string) defaultReporter) < 4096 \<and>
   nlines (new_defaultReporter :: (string, string \<times> string) defaultReporter) < 256 \<and>
   ex_Format (''int'', ''1'') \<lparr>UseStringer = True, PrintPrimitiveType = False\<rparr> =
     ex_Format (''uint'', ''1'') \<lparr>UseStringer = True, PrintPrimitiveType = False\<rparr> \<and>
   diffs (report ex_Format ex_GoString (''int'', ''1'') (''uint'', ''1'') [''{T}'', ''.N'']
     new_defaultReporter) =
     [''{T}.N:'' @ [CHR 0x0A, CHR 0x09] @ ''-: int(1)'' @ [CHR 0x0A, CHR 0x09] @ ''+: uint(1)'' @ [CHR 0x0A]] \<and>
   ex_Format (''int'', ''30'') \<lparr>UseStringer = True, PrintPrimitiveType = False\<rparr> \<noteq>
     ex_Format (''int'', ''31'') \<lparr>UseStringer = True, PrintPrimitiveType = False\<rparr> \<and>
   diffs (report ex_Format ex_GoString (''int'', ''30'') (''int'', ''31'') [''{T}'', ''.Age'']
     new_defaultReporter) =
     [''{T}.Age:'' @ [CHR 0x0A, CHR 0x09] @ ''-: 30'' @ [CHR 0x0A, CHR 0x09] @ ''+: 31'' @ [CHR 0x0A]] \<and>
   report (\<lambda>v cfg. snd v) ex_GoString (''int'', ''30'') (''int'', ''31'') [''{T}'', ''.Age'']
     new_defaultReporter =
   report ex_Format ex_GoString (''int'', ''30'') (''int'', ''31'') [''{T}'', ''.Age'']
     new_defaultReporter \<and>
   (\<exists>r. run ex_Format ex_GoString ex_masked new_defaultReporter = Inr r \<and>
      fst (String r) =
        ''{T}.N:'' @ [CHR 0x0A, CHR 0x09] @ ''-: int(1)'' @ [CHR 0x0A, CHR 0x09] @ ''+: uint(1)'' @ [CHR 0x0A])"
proof -
  let ?new = "new_defaultReporter :: (string, string \<times> string) defaultReporter"
  have b: "nbytes ?new < 4096" and l: "nlines ?new < 256"
    by (simp_all add: new_counters)
  have same: "ex_Format (''int'', ''1'') \<lparr>UseStringer = True, PrintPrimitiveType = False\<rparr> =
      ex_Format (''uint'', ''1'') \<lparr>UseStringer = True, PrintPrimitiveType = False\<rparr>"
    by (simp add: ex_Format_def)
  have differ: "ex_Format (''int'', ''30'') \<lparr>UseStringer = True, PrintPrimitiveType = False\<rparr> \<noteq>
      ex_Format (''int'', ''31'') \<lparr>UseStringer = True, PrintPrimitiveType = False\<rparr>"
    by (simp add: ex_Format_def)
  have agree: "\<forall>v. (\<lambda>v cfg. snd v) v \<lparr>UseStringer = True, PrintPrimitiveType = False\<rparr> =
      ex_Format v \<lparr>UseStringer = True, PrintPrimitiveType = False\<rparr>"
    by (simp add: ex_Format_def)
  note masked = report_rendering [OF b l, of ex_Format "(''int'', ''1'')" "(''uint'', ''1'')"
      ex_GoString "[''{T}'', ''.N'']"]
  from masked [THEN conjunct1, THEN mp, OF same]
  have 1: "diffs (report ex_Format ex_GoString (''int'', ''1'') (''uint'', ''1'') [''{T}'', ''.N'']
     ?new) = [''{T}.N:'' @ [CHR 0x0A, CHR 0x09] @ ''-: int(1)'' @ [CHR 0x0A, CHR 0x09] @ ''+: uint(1)'' @ [CHR 0x0A]]"
    by (simp add: new_counters ex_Format_def ex_GoString_def)
  note plain = report_rendering [OF b l, of ex_Format "(''int'', ''30'')" "(''int'', ''31'')"
      ex_GoString "[''{T}'', ''.Age'']"]
  note plain' = plain [THEN conjunct2, THEN mp, OF differ]
  from plain' [THEN conjunct1]
  have 2: "diffs (report ex_Format ex_GoString (''int'', ''30'') (''int'', ''31'') [''{T}'', ''.Age'']
     ?new) = [''{T}.Age:'' @ [CHR 0x0A, CHR 0x09] @ ''-: 30'' @ [CHR 0x0A, CHR 0x09] @ ''+: 31'' @ [CHR 0x0A]]"
    by (simp add: new_counters ex_Format_def ex_GoString_def)
  from plain' [THEN conjunct2, THEN spec, of "\<lambda>v cfg. snd v", THEN mp, OF agree]
  have 3: "report (\<lambda>v cfg. snd v) ex_GoString (''int'', ''30'') (''int'', ''31'')
      [''{T}'', ''.Age''] ?new =
    report ex_Format ex_GoString (''int'', ''30'') (''int'', ''31'') [''{T}'', ''.Age''] ?new" .
  show ?thesis by (intro conjI) (rule b l same differ 1 2 3 ex_masked_run)+
qed

subsection \<open>C5\<close>

text \<open>
  Claim C5. Report with any flag other than the unequal one, in particular with the
  equal and the ignore flag, returns the reporter as it was; a Report with the unequal
  flag that returns gives a different reporter.
\<close>

theorem Report_frame:
  "(f \<noteq> reportUnequal \<longrightarrow> Report F G f r = Inr r) \<and>
   Report F G reportEqual r = Inr r \<and>
   Report F G reportIgnore r = Inr r \<and>
   (Report F G reportUnequal r = Inr r' \<longrightarrow> r' \<noteq> r)"
proof (intro conjI impI)
  show "Report F G reportEqual r = Inr r"
    by (simp add: Report_def reportEqual_value reportUnequal_value)
  show "Report F G reportIgnore r = Inr r"
    by (simp add: Report_def reportIgnore_value reportUnequal_value)
next
  assume "f \<noteq> reportUnequal"
  then show "Report F G f r = Inr r" by (simp add: Report_def)
next
  assume "Report F G reportUnequal r = Inr r'"
  then have "ndiffs r' = ndiffs r + 1" by (simp add: Report_Inr report_ndiffs)
  then show "r' \<noteq> r" by auto
qed

text \<open>The three flags on a reporter with one open frame.\<close>

theorem Report_frame_witness:
  "reportEqual \<noteq> reportUnequal \<and>
   Report ex_Format ex_GoString reportEqual
     (PushStep ''.A'' (''int'', ''1'') (''int'', ''2'') new_defaultReporter) =
     Inr (PushStep ''.A'' (''int'', ''1'') (''int'', ''2'') new_defaultReporter) \<and>
   (\<exists>r'. Report ex_Format ex_GoString reportUnequal
       (PushStep ''.A'' (''int'', ''1'') (''int'', ''2'') new_defaultReporter) = Inr r' \<and>
     r' \<noteq> PushStep ''.A'' (''int'', ''1'') (''int'', ''2'') new_defaultReporter)"
proof -
  let ?r = "PushStep ''.A'' (''int'', ''1'') (''int'', ''2'') new_defaultReporter
    :: (string, string \<times> string) defaultReporter"
  have ne: "reportEqual \<noteq> reportUnequal"
    by (simp add: reportEqual_value reportUnequal_value)
  obtain r' where r': "Report ex_Format ex_GoString reportUnequal ?r = Inr r'"
    by (simp add: Report_def Let_def PushStep_fields)
  from Report_frame [of reportEqual ex_Format ex_GoString ?r r'] ne r'
  show ?thesis by blast
qed

subsection \<open>C6\<close>

text \<open>
  Claim C6. A well nested list of calls with no unequal report runs to the end from a
  fresh reporter, and String then returns the empty text.
\<close>

theorem no_unequal_empty_report:
  assumes "well_nested 0 cs" and "unequal_count cs = 0"
  shows "\<exists>r. run F G cs new_defaultReporter = Inr r \<and> fst (String r) = []"
proof -
  from run_new_returns [OF assms(1)] obtain r where r: "run F G cs new_defaultReporter = Inr r"
    by blast
  from run_ndiffs [OF r] assms(2) have n: "ndiffs r = 0" by (simp add: new_counters)
  have "int (length (diffs r)) \<le> ndiffs r"
    by (rule run_stored_le [OF _ r]) (simp add: new_counters)
  with n have "diffs r = []" by simp
  with n have "fst (String r) = []" by (simp add: String_fst)
  with r show ?thesis by blast
qed

text \<open>The traversal with one equal and one ignored leaf.\<close>

theorem no_unequal_empty_report_witness:
  "well_nested 0 ex_equal \<and> unequal_count ex_equal = 0 \<and>
   (\<exists>r. run ex_Format ex_GoString ex_equal new_defaultReporter = Inr r \<and> fst (String r) = [])"
proof -
  have w: "well_nested 0 ex_equal"
    by (simp add: ex_equal_def reportEqual_value reportUnequal_value reportIgnore_value)
  have u: "unequal_count ex_equal = 0"
    by (simp add: ex_equal_def unequal_count_def reportEqual_value reportUnequal_value
        reportIgnore_value)
  from w u no_unequal_empty_report [OF w u, of ex_Format ex_GoString] show ?thesis by blast
qed

subsection \<open>C7\<close>

text \<open>
  Claim C7. PushStep makes the path one step longer, a PopStep that returns makes it one
  step shorter, and after every prefix of a well nested list of calls from a fresh
  reporter the length of the path is the number of pushes minus the number of pops,
  which is not negative.
\<close>

theorem path_length_is_depth:
  "length (curPath (PushStep ps x y r0)) = length (curPath r0) + 1 \<and>
   (PopStep r0 = Inr r1 \<longrightarrow> length (curPath r1) + 1 = length (curPath r0)) \<and>
   (well_nested 0 cs \<longrightarrow>
      (\<exists>r. run F G (take n cs) new_defaultReporter = Inr r \<and>
           int (length (curPath r)) = depth (take n cs) \<and> 0 \<le> depth (take n cs)))"
proof (intro conjI impI)
  show "length (curPath (PushStep ps x y r0)) = length (curPath r0) + 1"
    by (simp add: PushStep_fields)
next
  assume "PopStep r0 = Inr r1"
  then show "length (curPath r1) + 1 = length (curPath r0)"
    by (auto simp: PopStep_Inr)
next
  assume "well_nested 0 cs"
  then have "well_nested 0 (take n cs)" by (rule well_nested_take)
  from run_new_returns [OF this]
  obtain r where r: "run F G (take n cs) new_defaultReporter = Inr r" by blast
  from run_new_depth(1) [OF r] have "int (length (curPath r)) = depth (take n cs)" .
  moreover from this have "0 \<le> depth (take n cs)" by linarith
  ultimately show "\<exists>r. run F G (take n cs) new_defaultReporter = Inr r \<and>
           int (length (curPath r)) = depth (take n cs) \<and> 0 \<le> depth (take n cs)"
    using r by blast
qed

text \<open>After the first three calls of the Age traversal the path has two steps.\<close>

theorem path_length_is_depth_witness:
  "well_nested 0 ex_age \<and>
   (\<exists>r. run ex_Format ex_GoString (take 3 ex_age) new_defaultReporter = Inr r \<and>
        int (length (curPath r)) = 2 \<and> depth (take 3 ex_age) = 2) \<and>
   (\<exists>r1. PopStep (PushStep ''.A'' (''int'', ''1'') (''int'', ''2'') new_defaultReporter) = Inr r1 \<and>
        length (curPath r1) + 1 =
        length (curPath (PushStep ''.A'' (''int'', ''1'') (''int'', ''2'') new_defaultReporter)))"
proof -
  let ?r = "PushStep ''.A'' (''int'', ''1'') (''int'', ''2'') new_defaultReporter
    :: (string, string \<times> string) defaultReporter"
  have w: "well_nested 0 ex_age"
    by (simp add: ex_age_def)
  have d: "depth (take 3 ex_age) = 2"
    by (simp add: ex_age_def depth_def)
  obtain r1 where r1: "PopStep ?r = Inr r1"
    by (simp add: PopStep_Inr PushStep_fields)
  from path_length_is_depth [of "''.A''" "(''int'', ''1'')" "(''int'', ''2'')" ?r r1
      ex_age ex_Format ex_GoString 3] w d r1
  show ?thesis by auto
qed

subsection \<open>C8\<close>

text \<open>
  Claim C8. After a list of calls from a fresh reporter that returned: at depth 0 PopStep
  and Report with the unequal flag both panic, and a run that goes on with either of them
  ends in that panic whatever follows; at a depth above 0 both PopStep and Report
  return.
\<close>

theorem protocol_violation_panics:
  assumes "run F G cs new_defaultReporter = Inr r"
  shows "(depth cs = 0 \<longrightarrow>
      PopStep r = Inl SliceBoundsOutOfRange \<and>
      Report F G reportUnequal r = Inl IndexOutOfRange \<and>
      run F G (cs @ Pop # cs') new_defaultReporter = Inl SliceBoundsOutOfRange \<and>
      run F G (cs @ Rep reportUnequal # cs') new_defaultReporter = Inl IndexOutOfRange) \<and>
    (0 < depth cs \<longrightarrow> (\<exists>r'. PopStep r = Inr r') \<and> (\<exists>r'. Report F G f r = Inr r'))"
proof (intro conjI impI)
  assume "depth cs = 0"
  with run_new_depth [OF assms] have e: "curPath r = []" "curVals r = []" by simp_all
  from e show p: "PopStep r = Inl SliceBoundsOutOfRange" by (simp add: PopStep_Inl)
  from e show q: "Report F G reportUnequal r = Inl IndexOutOfRange" by (simp add: Report_Inl)
  from p assms show "run F G (cs @ Pop # cs') new_defaultReporter = Inl SliceBoundsOutOfRange"
    by (simp add: run_append)
  from q assms show "run F G (cs @ Rep reportUnequal # cs') new_defaultReporter = Inl IndexOutOfRange"
    by (simp add: run_append)
next
  assume "0 < depth cs"
  with run_new_depth [OF assms] have e: "curPath r \<noteq> []" "curVals r \<noteq> []" by auto
  from e show "\<exists>r'. PopStep r = Inr r'" by (simp add: PopStep_Inr)
  from e show "\<exists>r'. Report F G f r = Inr r'" by (simp add: Report_def Let_def)
qed

text \<open>The Age traversal ends at depth 0; after its first two calls the depth is 2.\<close>

theorem protocol_violation_panics_witness:
  "(\<exists>r. run ex_Format ex_GoString ex_age new_defaultReporter = Inr r \<and> depth ex_age = 0 \<and>
        PopStep r = Inl SliceBoundsOutOfRange \<and>
        Report ex_Format ex_GoString reportUnequal r = Inl IndexOutOfRange) \<and>
   run ex_Format ex_GoString (ex_age @ [Pop]) new_defaultReporter = Inl SliceBoundsOutOfRange \<and>
   run ex_Format ex_GoString (ex_age @ [Rep reportUnequal]) new_defaultReporter = Inl IndexOutOfRange \<and>
   (\<exists>r. run ex_Format ex_GoString (take 2 ex_age) new_defaultReporter = Inr r \<and>
        0 < depth (take 2 ex_age) \<and> (\<exists>r'. PopStep r = Inr r') \<and>
        (\<exists>r'. Report ex_Format ex_GoString reportUnequal r = Inr r'))"
proof -
  have w: "well_nested 0 ex_age" "well_nested 0 (take 2 ex_age)"
    by (simp_all add: ex_age_def)
  have d: "depth ex_age = 0" "0 < depth (take 2 ex_age)"
    by (simp_all add: ex_age_def depth_def)
  from run_new_returns [OF w(1)] obtain r where
    r: "run ex_Format ex_GoString ex_age new_defaultReporter = Inr r" by blast
  from run_new_returns [OF w(2)] obtain q where
    q: "run ex_Format ex_GoString (take 2 ex_age) new_defaultReporter = Inr q" by blast
  from protocol_violation_panics [OF r, of "[]" reportUnequal] d(1)
  have 1: "PopStep r = Inl SliceBoundsOutOfRange"
    "Report ex_Format ex_GoString reportUnequal r = Inl IndexOutOfRange"
    "run ex_Format ex_GoString (ex_age @ [Pop]) new_defaultReporter = Inl SliceBoundsOutOfRange"
    "run ex_Format ex_GoString (ex_age @ [Rep reportUnequal]) new_defaultReporter = Inl IndexOutOfRange"
    by blast+
  from protocol_violation_panics [OF q, of "[]" reportUnequal] d(2)
  have 2: "\<exists>r'. PopStep q = Inr r'" "\<exists>r'. Report ex_Format ex_GoString reportUnequal q = Inr r'"
    by blast+
  from r q d 1 2 show ?thesis by blast
qed

subsection \<open>C9\<close>

text \<open>
  Claim C9. String returns the reporter it was given, and a second call right after the
  first returns the same text.
\<close>

theorem String_idempotent:
  "snd (String r) = r \<and> fst (String (snd (String r))) = fst (String r)"
  by (simp add: String_snd)

subsection \<open>C10\<close>

text \<open>
  Claim C10. After any list of calls from a fresh reporter that returns, the path and the
  value stack have the same length: the path holds the steps of the open pushes and the
  value stack holds, at the same positions, the two values that came with each of them.
\<close>

theorem stacks_parallel:
  assumes "run F G cs new_defaultReporter = Inr r"
  shows "length (curPath r) = length (curVals r) \<and>
    curPath r = map fst (open_frames [] cs) \<and>
    curVals r = map snd (open_frames [] cs)"
proof -
  from run_frames [OF new_stacks(1,2) assms]
  have f: "curPath r = map fst (open_frames [] cs)" "curVals r = map snd (open_frames [] cs)"
    by simp_all
  then have "length (curPath r) = length (curVals r)" by simp
  with f show ?thesis by simp
qed

text \<open>After the first two calls of the Age traversal both stacks hold two entries.\<close>

theorem stacks_parallel_witness:
  "\<exists>r. run ex_Format ex_GoString (take 2 ex_age) new_defaultReporter = Inr r \<and>
       length (curPath r) = length (curVals r) \<and>
       curPath r = [''{T}'', ''.Age''] \<and>
       curVals r = [((''T'', ''{30}''), (''T'', ''{31}'')), ((''int'', ''30''), (''int'', ''31''))]"
proof -
  have "well_nested 0 (take 2 ex_age)"
    by (simp add: ex_age_def)
  from run_new_returns [OF this] obtain r where
    r: "run ex_Format ex_GoString (take 2 ex_age) new_defaultReporter = Inr r" by blast
  have "open_frames [] (take 2 ex_age) =
      [(''{T}'', (''T'', ''{30}''), (''T'', ''{31}'')), (''.Age'', (''int'', ''30''), (''int'', ''31''))]"
    by (simp add: ex_age_def)
  with stacks_parallel [OF r] r show ?thesis by auto
qed

end
